theory Spec2Isabelle
  imports Complex_Main "HOL-Library.Multiset"
begin

section \<open>The timing oracle prober of \<open>tic.py\<close>\<close>

text \<open>
  \<open>tic.py\<close> is a script: its configuration constants, the growing prefix \<open>known\<close>, and the
  loop variables \<open>found\<close> and \<open>candidates\<close> are module globals.  The model keeps the
  constants in a record \<open>config\<close> (so that the spec's scenarios, which use other constants,
  can be stated), the mutable globals in a record \<open>state\<close>, and makes the two effects of the
  script explicit: the HTTP requests it issues (\<open>sent\<close>) and the lines it prints (\<open>out\<close>).

  Latencies are Python floats in the source; here they are real numbers, so rounding of
  floating-point addition and division is not modelled.
\<close>

subsection \<open>Configuration\<close>

record config =
  charset :: string
  threshold :: real
  attempts_per_char :: nat
  seed :: string



subsection \<open>The network and the clock\<close>

text \<open>
  One trial is one pass through the body of the loop of \<open>avg_response_time\<close>: a call of
  \<open>requests.get\<close> between two readings of \<open>time.time()\<close>.  The call returns a response,
  raises a \<open>requests.exceptions.RequestException\<close> (the only class the handler catches), or
  raises something else, which the handler lets through.  \<open>elapsed\<close> is the difference of
  the two clock readings.
\<close>

datatype outcome = Response | RequestException | OtherException

record trial =
  outcome :: outcome
  elapsed :: real

text \<open>
  The environment answers the \<open>i\<close>-th request of the process (counted from 0) carrying the
  query parameter \<open>q = payload\<close>.  A deterministic oracle is one that ignores \<open>i\<close>.
\<close>

type_synonym env = "nat \<Rightarrow> string \<Rightarrow> trial"

subsection \<open>State and console output\<close>

text \<open>One constructor per \<open>print\<close> statement of the source, holding the values it formats.\<close>

datatype line =
    Trying string real        \<comment> \<open>\<open>Trying '{payload}' -> Avg time: {avg_time:.3f}s\<close>\<close>
  | Found char string         \<comment> \<open>\<open>Found next character: '{c}' -> Current known: '{known}'\<close>\<close>
  | NoneCrossed               \<comment> \<open>\<open>No character crossed the threshold. Showing top 5 ...\<close>\<close>
  | Slowest string real       \<comment> \<open>\<open>{cand} -> {time_taken:.3f}s\<close>\<close>
  | Stopping                  \<comment> \<open>\<open>No strong match found. Stopping.\<close>\<close>
  | SecretDiscovered string   \<comment> \<open>\<open>Secret discovered: {known}\<close>\<close>

record state =
  known :: string
  found :: bool
  candidates :: "(string \<times> real) list"
  sent :: "string list"
  out :: "line list"

datatype error = Uncaught | ZeroDivisionError

definition init :: "config \<Rightarrow> state" where
  "init cfg = \<lparr>known = seed cfg, found = False, candidates = [], sent = [], out = []\<rparr>"

definition print :: "line \<Rightarrow> state \<Rightarrow> state" where
  "print l s = s\<lparr>out := out s @ [l]\<rparr>"

subsection \<open>\<open>avg_response_time\<close>\<close>

text \<open>
  The \<open>for _ in range(attempts_per_char)\<close> loop, with the number of remaining passes and
  the running \<open>total\<close> as arguments.  A \<open>RequestException\<close> is swallowed by \<open>pass\<close>; in both
  the normal and the swallowed case the elapsed time is added to \<open>total\<close>.
\<close>

fun trials :: "env \<Rightarrow> string \<Rightarrow> nat \<Rightarrow> real \<Rightarrow> state \<Rightarrow> error + (real \<times> state)" where
  "trials env payload 0 total' s = Inr (total', s)"
| "trials env payload (Suc n) total' s =
     (let t = env (length (sent s)) payload;
          s' = s\<lparr>sent := sent s @ [payload]\<rparr>
      in case outcome t of
           OtherException \<Rightarrow> Inl Uncaught
         | _ \<Rightarrow> trials env payload n (total' + elapsed t) s')"

definition avg_response_time :: "config \<Rightarrow> env \<Rightarrow> string \<Rightarrow> state \<Rightarrow> error + (real \<times> state)" where
  "avg_response_time cfg env payload s =
     (case trials env payload (attempts_per_char cfg) 0 s of
        Inl e \<Rightarrow> Inl e
      | Inr (total', s') \<Rightarrow>
          if attempts_per_char cfg = 0 then Inl ZeroDivisionError
          else Inr (total' / real (attempts_per_char cfg), s'))"

subsection \<open>The scan of the charset at one position\<close>

text \<open>The \<open>for c in charset\<close> loop; the argument is the part of the charset not yet tried.\<close>

fun scan :: "config \<Rightarrow> env \<Rightarrow> string \<Rightarrow> state \<Rightarrow> error + state" where
  "scan cfg env [] s = Inr s"
| "scan cfg env (c # cs) s =
     (let payload = known s @ [c] in
      case avg_response_time cfg env payload s of
        Inl e \<Rightarrow> Inl e
      | Inr (avg_time, s1) \<Rightarrow>
          let s2 = s1\<lparr>candidates := candidates s1 @ [(payload, avg_time)]\<rparr>;
              s3 = print (Trying payload avg_time) s2
          in if avg_time > threshold cfg then
               let s4 = s3\<lparr>known := known s3 @ [c]\<rparr>;
                   s5 = print (Found c (known s4)) s4
               in Inr (s5\<lparr>found := True\<rparr>)
             else scan cfg env cs s3)"

subsection \<open>The stall report\<close>

text \<open>
  \<open>candidates.sort(key=lambda x: x[1], reverse=True)\<close>: Python's sort is stable, also with
  \<open>reverse=True\<close>, and so is \<open>sort_key\<close>.
\<close>

definition sort_desc :: "(string \<times> real) list \<Rightarrow> (string \<times> real) list" where
  "sort_desc cands = sort_key (\<lambda>x. - snd x) cands"

definition report :: "state \<Rightarrow> state" where
  "report s =
     (let s1 = print NoneCrossed s;
          s2 = s1\<lparr>candidates := sort_desc (candidates s1)\<rparr>;
          s3 = s2\<lparr>out := out s2 @ map (\<lambda>(cand, time_taken). Slowest cand time_taken)
                                   (take 5 (candidates s2))\<rparr>
      in print Stopping s3)"

subsection \<open>The main loop\<close>

text \<open>One pass through the body of \<open>while True\<close>, up to the decision whether to \<open>break\<close>.\<close>

definition position :: "config \<Rightarrow> env \<Rightarrow> state \<Rightarrow> error + state" where
  "position cfg env s =
     (case scan cfg env (charset cfg) (s\<lparr>found := False, candidates := []\<rparr>) of
        Inl e \<Rightarrow> Inl e
      | Inr s' \<Rightarrow> if \<not> found s' then Inr (report s') else Inr s')"

text \<open>
  \<open>while True\<close> has no bound: the loop is a partial function, and \<open>None\<close> is a run that
  never leaves it.
\<close>

partial_function (option) loop :: "config \<Rightarrow> env \<Rightarrow> state \<Rightarrow> (error + state) option" where
  "loop cfg env s =
     (case position cfg env s of
        Inl e \<Rightarrow> Some (Inl e)
      | Inr s' \<Rightarrow> if \<not> found s' then Some (Inr s') else loop cfg env s')"

declare loop.simps [code]

definition run_from :: "config \<Rightarrow> env \<Rightarrow> state \<Rightarrow> (error + state) option" where
  "run_from cfg env s =
     (case loop cfg env s of
        None \<Rightarrow> None
      | Some (Inl e) \<Rightarrow> Some (Inl e)
      | Some (Inr s') \<Rightarrow> Some (Inr (print (SecretDiscovered (known s')) s')))"

definition run :: "config \<Rightarrow> env \<Rightarrow> (error + state) option" where
  "run cfg env = run_from cfg env (init cfg)"

subsection \<open>Notions used to state the properties\<close>

text \<open>
  None of the requests \<open>base, \<dots>, base + n - 1\<close> for \<open>payload\<close> raises an exception that the
  handler of \<open>avg_response_time\<close> does not catch.
\<close>

definition all_caught :: "env \<Rightarrow> nat \<Rightarrow> nat \<Rightarrow> string \<Rightarrow> bool" where
  "all_caught env base n payload = (\<forall>j<n. outcome (env (base + j) payload) \<noteq> OtherException)"

text \<open>No request ever raises an exception that the handler does not catch.\<close>

definition calm :: "env \<Rightarrow> bool" where
  "calm env = (\<forall>i p. outcome (env i p) \<noteq> OtherException)"


text \<open>The arithmetic mean of the elapsed times of the requests \<open>base, \<dots>, base + n - 1\<close>.\<close>

definition mean_elapsed :: "env \<Rightarrow> nat \<Rightarrow> nat \<Rightarrow> string \<Rightarrow> real" where
  "mean_elapsed env base n payload = (\<Sum>j<n. elapsed (env (base + j) payload)) / real n"



text \<open>The state after \<open>n\<close> more requests for \<open>payload\<close>.\<close>

definition requested :: "nat \<Rightarrow> string \<Rightarrow> state \<Rightarrow> state" where
  "requested n payload s = s\<lparr>sent := sent s @ replicate n payload\<rparr>"

text \<open>
  The candidate measurements that a scan of \<open>cs\<close> makes when it starts at request number
  \<open>base\<close> with the prefix \<open>kn\<close> and tries every character: each candidate uses up
  \<open>attempts_per_char\<close> requests.
\<close>

fun measured :: "config \<Rightarrow> env \<Rightarrow> nat \<Rightarrow> string \<Rightarrow> string \<Rightarrow> (string \<times> real) list" where
  "measured cfg env base kn [] = []"
| "measured cfg env base kn (c # cs) =
     (kn @ [c], mean_elapsed env base (attempts_per_char cfg) (kn @ [c]))
       # measured cfg env (base + attempts_per_char cfg) kn cs"

text \<open>
  The state after the measurements \<open>M\<close> have been made, recorded and printed, and the state
  after the character \<open>c\<close> has been accepted.
\<close>

definition tried :: "config \<Rightarrow> (string \<times> real) list \<Rightarrow> state \<Rightarrow> state" where
  "tried cfg M s =
     s\<lparr>candidates := candidates s @ M,
       sent := sent s @ concat (map (\<lambda>m. replicate (attempts_per_char cfg) (fst m)) M),
       out := out s @ map (\<lambda>(p, a). Trying p a) M\<rparr>"

definition accepted :: "char \<Rightarrow> state \<Rightarrow> state" where
  "accepted c s = s\<lparr>known := known s @ [c], found := True,
                     out := out s @ [Found c (known s @ [c])]\<rparr>"

text \<open>
  The loop cut off after at most \<open>k\<close> positions: the flag tells whether the loop was left
  (by \<open>break\<close>) within them, and the state is the one at that point of the run.
\<close>

fun unroll :: "config \<Rightarrow> env \<Rightarrow> nat \<Rightarrow> state \<Rightarrow> error + (bool \<times> state)" where
  "unroll cfg env 0 s = Inr (False, s)"
| "unroll cfg env (Suc k) s =
     (case position cfg env s of
        Inl e \<Rightarrow> Inl e
      | Inr s' \<Rightarrow> if \<not> found s' then Inr (True, s') else unroll cfg env k s')"

text \<open>The result of a loop that was left, in the format of \<open>unroll\<close>.\<close>

definition finished :: "error + state \<Rightarrow> error + (bool \<times> state)" where
  "finished r = (case r of Inl e \<Rightarrow> Inl e | Inr s \<Rightarrow> Inr (True, s))"

text \<open>Two states agree when they hold the same known prefix and the same flag.\<close>

definition agree :: "state \<Rightarrow> state \<Rightarrow> bool" where
  "agree a b = (known a = known b \<and> found a = found b)"


subsection \<open>Concrete configurations, environments and states\<close>

text \<open>The configuration of the spec's scenario; the repeat count is the source's.\<close>

definition scenario :: config where
  "scenario = \<lparr>charset = ''AB'', threshold = 3 / 10, attempts_per_char = 7, seed = ''''\<rparr>"






text \<open>
  The oracle of the spec's scenario, for the target \<open>AB\<close>: every request is answered, after
  half a second for the payloads \<open>A\<close> and \<open>AB\<close> and after a tenth of a second for all others.
\<close>

definition slow_on_prefix :: env where
  "slow_on_prefix i p = \<lparr>outcome = Response,
                          elapsed = (if p = ''A'' \<or> p = ''AB'' then 1 / 2 else 1 / 10)\<rparr>"



text \<open>The states of the scenario's run after its first, second and third position.\<close>

definition after_A :: state where
  "after_A = \<lparr>known = ''A'', found = True, candidates = [(''A'', 1 / 2)],
              sent = replicate 7 ''A'',
              out = [Trying ''A'' (1 / 2), Found CHR ''A'' ''A'']\<rparr>"

definition after_AB :: state where
  "after_AB = \<lparr>known = ''AB'', found = True, candidates = [(''AA'', 1 / 10), (''AB'', 1 / 2)],
               sent = replicate 7 ''A'' @ replicate 7 ''AA'' @ replicate 7 ''AB'',
               out = [Trying ''A'' (1 / 2), Found CHR ''A'' ''A'',
                      Trying ''AA'' (1 / 10), Trying ''AB'' (1 / 2), Found CHR ''B'' ''AB'']\<rparr>"

definition stalled_AB :: state where
  "stalled_AB = \<lparr>known = ''AB'', found = False,
                 candidates = [(''ABA'', 1 / 10), (''ABB'', 1 / 10)],
                 sent = replicate 7 ''A'' @ replicate 7 ''AA'' @ replicate 7 ''AB''
                          @ replicate 7 ''ABA'' @ replicate 7 ''ABB'',
                 out = [Trying ''A'' (1 / 2), Found CHR ''A'' ''A'',
                        Trying ''AA'' (1 / 10), Trying ''AB'' (1 / 2), Found CHR ''B'' ''AB'',
                        Trying ''ABA'' (1 / 10), Trying ''ABB'' (1 / 10), NoneCrossed,
                        Slowest ''ABA'' (1 / 10), Slowest ''ABB'' (1 / 10), Stopping]\<rparr>"


section \<open>What the program computes\<close>

subsection \<open>The measurement of one candidate\<close>

lemma all_caught_Suc:
  "all_caught env base (Suc n) p =
     (outcome (env base p) \<noteq> OtherException \<and> all_caught env (Suc base) n p)"
  unfolding all_caught_def
  by (auto simp: less_Suc_eq_0_disj)

lemma calm_all_caught: "calm env \<Longrightarrow> all_caught env b n p"
  by (simp add: calm_def all_caught_def)

lemma trials_eq:
  "trials env p n t s =
     (if all_caught env (length (sent s)) n p
      then Inr (t + (\<Sum>j<n. elapsed (env (length (sent s) + j) p)), requested n p s)
      else Inl Uncaught)"
proof (induction n arbitrary: t s)
  case 0
  show ?case by (simp add: all_caught_def requested_def)
next
  case (Suc n)
  let ?s = "s\<lparr>sent := sent s @ [p]\<rparr>"
  have r: "requested n p ?s = requested (Suc n) p s"
    by (simp add: requested_def replicate_append_same)
  have l: "length (sent ?s) = Suc (length (sent s))" by simp
  show ?case
  proof (cases "outcome (env (length (sent s)) p) = OtherException")
    case True
    then show ?thesis by (simp add: all_caught_Suc)
  next
    case False
    have "trials env p (Suc n) t s = trials env p n (t + elapsed (env (length (sent s)) p)) ?s"
      using False by (simp add: Let_def split: outcome.splits)
    also have "\<dots> = (if all_caught env (Suc (length (sent s))) n p
        then Inr (t + elapsed (env (length (sent s)) p)
                    + (\<Sum>j<n. elapsed (env (Suc (length (sent s)) + j) p)), requested (Suc n) p s)
        else Inl Uncaught)"
      unfolding Suc.IH l r ..
    finally have step: "trials env p (Suc n) t s = (if all_caught env (Suc (length (sent s))) n p
        then Inr (t + elapsed (env (length (sent s)) p)
                    + (\<Sum>j<n. elapsed (env (Suc (length (sent s)) + j) p)), requested (Suc n) p s)
        else Inl Uncaught)" .
    have sum: "(\<Sum>j<Suc n. elapsed (env (length (sent s) + j) p))
        = elapsed (env (length (sent s)) p) + (\<Sum>j<n. elapsed (env (Suc (length (sent s)) + j) p))"
      by (simp only: sum.lessThan_Suc_shift add_0_right add_Suc_right add_Suc)
    show ?thesis
      unfolding step sum using False by (simp only: all_caught_Suc add.assoc simp_thms if_True)
  qed
qed

lemma avg_response_time_eq:
  "avg_response_time cfg env p s =
     (if \<not> all_caught env (length (sent s)) (attempts_per_char cfg) p then Inl Uncaught
      else if attempts_per_char cfg = 0 then Inl ZeroDivisionError
      else Inr (mean_elapsed env (length (sent s)) (attempts_per_char cfg) p,
                requested (attempts_per_char cfg) p s))"
  by (simp add: avg_response_time_def trials_eq mean_elapsed_def)

lemma mean_elapsed_const:
  assumes "\<forall>j<n. elapsed (env (b + j) p) = x" and "n > 0"
  shows "mean_elapsed env b n p = x"
proof -
  have "(\<Sum>j<n. elapsed (env (b + j) p)) = (\<Sum>j<n. x)"
    using assms(1) by (intro sum.cong) auto
  then show ?thesis
    using assms(2) by (simp add: mean_elapsed_def)
qed


subsection \<open>The scan of the charset\<close>

lemma measured_snoc_ne: "measured cfg env base kn (cs @ [c]) \<noteq> []"
  by (induction cs arbitrary: base) auto



lemma tried_Cons: "tried cfg M (tried cfg [m] s) = tried cfg (m # M) s"
  by (simp add: tried_def)

lemma tried_fields:
  "known (tried cfg M s) = known s"
  "found (tried cfg M s) = found s"
  "length (sent (tried cfg M s)) = length (sent s) + attempts_per_char cfg * length M"
  by (induction M) (simp_all add: tried_def)




lemma accepted_fields:
  "known (accepted c s) = known s @ [c]"
  "found (accepted c s) = True"
  "sent (accepted c s) = sent s"
  "candidates (accepted c s) = candidates s"
  "out (accepted c s) = out s @ [Found c (known s @ [c])]"
  by (simp_all add: accepted_def)

lemma report_fields:
  "known (report s) = known s"
  "found (report s) = found s"
  "sent (report s) = sent s"
  "candidates (report s) = sort_desc (candidates s)"
  "out (report s) = out s @ [NoneCrossed]
      @ map (\<lambda>(cand, time_taken). Slowest cand time_taken) (take 5 (sort_desc (candidates s)))
      @ [Stopping]"
  by (simp_all add: report_def print_def Let_def)

lemma scan_Cons:
  "scan cfg env (c # cs) s =
     (let p = known s @ [c]; n = attempts_per_char cfg;
          a = mean_elapsed env (length (sent s)) n p
      in if \<not> all_caught env (length (sent s)) n p then Inl Uncaught
         else if n = 0 then Inl ZeroDivisionError
         else if a > threshold cfg then Inr (accepted c (tried cfg [(p, a)] s))
         else scan cfg env cs (tried cfg [(p, a)] s))"
proof -
  let ?n = "attempts_per_char cfg"
  let ?p = "known s @ [c]"
  let ?a = "mean_elapsed env (length (sent s)) ?n ?p"
  have t: "print (Trying p a) ((requested ?n p s)\<lparr>candidates := candidates (requested ?n p s) @ [(p, a)]\<rparr>)
             = tried cfg [(p, a)] s" for p a
    by (cases s) (simp add: tried_def print_def requested_def)
  have f: "(print (Found c (known (s3\<lparr>known := known s3 @ [c]\<rparr>))) (s3\<lparr>known := known s3 @ [c]\<rparr>))
             \<lparr>found := True\<rparr> = accepted c s3" for s3
    by (cases s3) (simp add: accepted_def print_def)
  show ?thesis
  proof (cases "all_caught env (length (sent s)) ?n ?p \<and> ?n \<noteq> 0")
    case False
    then have "avg_response_time cfg env ?p s
        = (if \<not> all_caught env (length (sent s)) ?n ?p then Inl Uncaught else Inl ZeroDivisionError)"
      by (auto simp: avg_response_time_eq)
    then show ?thesis
      unfolding scan.simps Let_def using False by auto
  next
    case True
    then have avg: "avg_response_time cfg env ?p s = Inr (?a, requested ?n ?p s)"
      by (simp add: avg_response_time_eq)
    show ?thesis
      unfolding scan.simps Let_def avg sum.case prod.case t f
      using True by simp
  qed
qed

lemma scan_cases:
  assumes "scan cfg env cs s = Inr s'"
  shows "(\<exists>cs1 c cs2. cs = cs1 @ c # cs2 \<and>
            (\<forall>m \<in> set (measured cfg env (length (sent s)) (known s) cs1). snd m \<le> threshold cfg) \<and>
            mean_elapsed env (length (sent s) + attempts_per_char cfg * length cs1)
               (attempts_per_char cfg) (known s @ [c]) > threshold cfg \<and>
            s' = accepted c (tried cfg (measured cfg env (length (sent s)) (known s) (cs1 @ [c])) s))
       \<or> ((\<forall>m \<in> set (measured cfg env (length (sent s)) (known s) cs). snd m \<le> threshold cfg) \<and>
            s' = tried cfg (measured cfg env (length (sent s)) (known s) cs) s)"
  using assms
proof (induction cs arbitrary: s)
  case Nil
  then show ?case by (simp add: tried_def)
next
  case (Cons c0 cs)
  let ?n = "attempts_per_char cfg"
  let ?b = "length (sent s)"
  let ?p = "known s @ [c0]"
  let ?a = "mean_elapsed env ?b ?n ?p"
  let ?s3 = "tried cfg [(?p, ?a)] s"
  show ?case
  proof (cases "?a > threshold cfg")
    case True
    with Cons.prems have "s' = accepted c0 ?s3"
      unfolding scan_Cons Let_def by (simp split: if_splits)
    with True have "c0 # cs = [] @ c0 # cs \<and>
        (\<forall>m \<in> set (measured cfg env ?b (known s) []). snd m \<le> threshold cfg) \<and>
        mean_elapsed env (?b + ?n * length ([]::string)) ?n (known s @ [c0]) > threshold cfg \<and>
        s' = accepted c0 (tried cfg (measured cfg env ?b (known s) ([] @ [c0])) s)"
      by simp
    then show ?thesis by blast
  next
    case False
    with Cons.prems have rec: "scan cfg env cs ?s3 = Inr s'"
      unfolding scan_Cons Let_def by (simp split: if_splits)
    have k: "known ?s3 = known s" and l: "length (sent ?s3) = ?b + ?n"
      by (simp_all add: tried_fields)
    from Cons.IH [OF rec] show ?thesis
      unfolding k l
    proof (elim disjE exE conjE)
      fix cs1 c cs2
      assume a: "cs = cs1 @ c # cs2"
        and b: "\<forall>m\<in>set (measured cfg env (?b + ?n) (known s) cs1). snd m \<le> threshold cfg"
        and c: "threshold cfg < mean_elapsed env (?b + ?n + ?n * length cs1) ?n (known s @ [c])"
        and d: "s' = accepted c (tried cfg (measured cfg env (?b + ?n) (known s) (cs1 @ [c])) ?s3)"
      have "c0 # cs = (c0 # cs1) @ c # cs2" using a by simp
      moreover have "\<forall>m\<in>set (measured cfg env ?b (known s) (c0 # cs1)). snd m \<le> threshold cfg"
        using b False by simp
      moreover have "threshold cfg < mean_elapsed env (?b + ?n * length (c0 # cs1)) ?n (known s @ [c])"
        using c by (simp add: add.assoc)
      moreover have "s' = accepted c (tried cfg (measured cfg env ?b (known s) ((c0 # cs1) @ [c])) s)"
        using d by (simp add: tried_Cons)
      ultimately show ?thesis by blast
    next
      assume b: "\<forall>m\<in>set (measured cfg env (?b + ?n) (known s) cs). snd m \<le> threshold cfg"
        and d: "s' = tried cfg (measured cfg env (?b + ?n) (known s) cs) ?s3"
      have "\<forall>m\<in>set (measured cfg env ?b (known s) (c0 # cs)). snd m \<le> threshold cfg"
        using b False by simp
      moreover have "s' = tried cfg (measured cfg env ?b (known s) (c0 # cs)) s"
        using d by (simp add: tried_Cons)
      ultimately show ?thesis by blast
    qed
  qed
qed




subsection \<open>One position\<close>

lemma position_cases:
  assumes "position cfg env s = Inr s'"
  shows "(found s' \<and> (\<exists>cs1 c cs2. charset cfg = cs1 @ c # cs2 \<and>
            (\<forall>m \<in> set (measured cfg env (length (sent s)) (known s) cs1). snd m \<le> threshold cfg) \<and>
            mean_elapsed env (length (sent s) + attempts_per_char cfg * length cs1)
               (attempts_per_char cfg) (known s @ [c]) > threshold cfg \<and>
            s' = accepted c (tried cfg (measured cfg env (length (sent s)) (known s) (cs1 @ [c]))
                               (s\<lparr>found := False, candidates := []\<rparr>))))
       \<or> (\<not> found s' \<and>
            (\<forall>m \<in> set (measured cfg env (length (sent s)) (known s) (charset cfg)). snd m \<le> threshold cfg) \<and>
            s' = report (tried cfg (measured cfg env (length (sent s)) (known s) (charset cfg))
                               (s\<lparr>found := False, candidates := []\<rparr>)))"
proof -
  let ?s0 = "s\<lparr>found := False, candidates := []\<rparr>"
  from assms obtain s1 where sc: "scan cfg env (charset cfg) ?s0 = Inr s1"
    and s': "s' = (if \<not> found s1 then report s1 else s1)"
    by (auto simp: position_def split: sum.splits if_splits)
  have k: "known ?s0 = known s" "sent ?s0 = sent s" by simp_all
  from scan_cases [OF sc] show ?thesis
    unfolding k
  proof (elim disjE exE conjE)
    fix cs1 c cs2
    assume a: "charset cfg = cs1 @ c # cs2"
      and b: "\<forall>m\<in>set (measured cfg env (length (sent s)) (known s) cs1). snd m \<le> threshold cfg"
      and c: "threshold cfg < mean_elapsed env (length (sent s) + attempts_per_char cfg * length cs1)
                 (attempts_per_char cfg) (known s @ [c])"
      and d: "s1 = accepted c (tried cfg (measured cfg env (length (sent s)) (known s) (cs1 @ [c])) ?s0)"
    from d have "found s1" by (simp add: accepted_fields)
    with s' d have "found s'" "s' = accepted c (tried cfg (measured cfg env (length (sent s)) (known s) (cs1 @ [c])) ?s0)"
      by simp_all
    with a b c show ?thesis by blast
  next
    assume b: "\<forall>m\<in>set (measured cfg env (length (sent s)) (known s) (charset cfg)). snd m \<le> threshold cfg"
      and d: "s1 = tried cfg (measured cfg env (length (sent s)) (known s) (charset cfg)) ?s0"
    from d have "\<not> found s1" by (simp add: tried_fields)
    with s' d have "\<not> found s'" "s' = report (tried cfg (measured cfg env (length (sent s)) (known s) (charset cfg)) ?s0)"
      by (simp_all add: report_fields)
    with b show ?thesis by blast
  qed
qed





lemma position_known:
  assumes "position cfg env s = Inr s'"
  shows "if found s' then \<exists>c \<in> set (charset cfg). known s' = known s @ [c]
         else known s' = known s"
  using position_cases [OF assms]
  by (auto simp: accepted_fields tried_fields report_fields)

subsection \<open>The loop and its unrolling\<close>

lemma unroll_loop:
  "unroll cfg env k s = finished r \<Longrightarrow> loop cfg env s = Some r"
proof (induction k arbitrary: s)
  case 0
  then show ?case by (simp add: finished_def split: sum.splits)
next
  case (Suc k)
  show ?case
  proof (cases "position cfg env s")
    case (Inl e)
    with Suc.prems show ?thesis
      by (subst loop.simps) (simp add: finished_def split: sum.splits)
  next
    case (Inr s')
    show ?thesis
    proof (cases "found s'")
      case True
      with Inr Suc.prems have "unroll cfg env k s' = finished r" by simp
      from Suc.IH [OF this] Inr True show ?thesis
        by (subst loop.simps) simp
    next
      case False
      with Inr Suc.prems show ?thesis
        by (subst loop.simps) (simp add: finished_def split: sum.splits)
    qed
  qed
qed

lemma loop_unroll:
  assumes "loop cfg env s = Some r"
  shows "\<exists>k. unroll cfg env k s = finished r"
  using assms
proof (induction rule: loop.raw_induct [rotated 1, consumes 1])
  case (1 loop' cfg env s r)
  show ?case
  proof (cases "position cfg env s")
    case (Inl e)
    with 1(2) have "r = Inl e" by simp
    with Inl have "unroll cfg env (Suc 0) s = finished r"
      by (simp add: finished_def)
    then show ?thesis by blast
  next
    case (Inr s')
    show ?thesis
    proof (cases "found s'")
      case True
      with Inr 1(2) have "loop' cfg env s' = Some r" by simp
      from 1(1) [OF this] obtain k where "unroll cfg env k s' = finished r" by blast
      with Inr True have "unroll cfg env (Suc k) s = finished r" by simp
      then show ?thesis by blast
    next
      case False
      with Inr 1(2) have "r = Inr s'" by simp
      with Inr False have "unroll cfg env (Suc 0) s = finished r"
        by (simp add: finished_def)
      then show ?thesis by blast
    qed
  qed
qed


lemma unroll_add:
  "unroll cfg env j s0 = Inr (False, s) \<Longrightarrow> unroll cfg env (j + k) s0 = unroll cfg env k s"
proof (induction j arbitrary: s0)
  case 0
  then show ?case by simp
next
  case (Suc j)
  then show ?case
    by (cases "position cfg env s0") (auto split: if_splits)
qed


lemma unroll_known:
  "unroll cfg env k s0 = Inr (b, s) \<Longrightarrow>
     \<exists>suffix. known s = known s0 @ suffix \<and> set suffix \<subseteq> set (charset cfg) \<and> length suffix \<le> k"
proof (induction k arbitrary: s0)
  case 0
  then show ?case by simp
next
  case (Suc k)
  from Suc.prems obtain s1 where p: "position cfg env s0 = Inr s1"
    by (cases "position cfg env s0") auto
  show ?case
  proof (cases "found s1")
    case False
    with p Suc.prems have "s = s1" by simp
    with position_known [OF p] False show ?thesis by simp
  next
    case True
    with position_known [OF p] obtain c where c: "c \<in> set (charset cfg)" "known s1 = known s0 @ [c]"
      by auto
    from p True Suc.prems have "unroll cfg env k s1 = Inr (b, s)" by simp
    from Suc.IH [OF this] obtain suffix where
      "known s = known s1 @ suffix" "set suffix \<subseteq> set (charset cfg)" "length suffix \<le> k"
      by blast
    with c have "known s = known s0 @ (c # suffix) \<and> set (c # suffix) \<subseteq> set (charset cfg)
        \<and> length (c # suffix) \<le> Suc k" by simp
    then show ?thesis by blast
  qed
qed

lemma loop_stall:
  assumes "unroll cfg env j s0 = Inr (False, s)" and "position cfg env s = Inr s'" and "\<not> found s'"
  shows "loop cfg env s0 = Some (Inr s')"
proof -
  have "unroll cfg env (j + Suc 0) s0 = unroll cfg env (Suc 0) s"
    using assms(1) by (rule unroll_add)
  with assms(2,3) have "unroll cfg env (j + Suc 0) s0 = finished (Inr s')"
    by (simp add: finished_def)
  then show ?thesis by (rule unroll_loop)
qed

lemma run_from_stall:
  assumes "unroll cfg env j s0 = Inr (False, s)" and "position cfg env s = Inr s'" and "\<not> found s'"
  shows "run_from cfg env s0 = Some (Inr (print (SecretDiscovered (known s')) s'))"
proof -
  have "unroll cfg env (j + Suc 0) s0 = unroll cfg env (Suc 0) s"
    using assms(1) by (rule unroll_add)
  with assms(2,3) have "unroll cfg env (j + Suc 0) s0 = finished (Inr s')"
    by (simp add: finished_def)
  then have "loop cfg env s0 = Some (Inr s')" by (rule unroll_loop)
  then show ?thesis by (simp add: run_from_def)
qed

lemma run_from_cases:
  assumes "run_from cfg env s0 = Some r"
  shows "\<exists>r0. loop cfg env s0 = Some r0
           \<and> r = (case r0 of Inl e \<Rightarrow> Inl e
                             | Inr s' \<Rightarrow> Inr (print (SecretDiscovered (known s')) s'))"
  using assms by (auto simp: run_from_def split: option.splits sum.splits)

subsection \<open>The ranking of the stall report\<close>





subsection \<open>Deterministic oracles\<close>








lemma agree_report: "agree s1 s2 \<Longrightarrow> agree (report s1) (report s2)"
  by (simp add: agree_def report_fields)







subsection \<open>The concrete environments\<close>











lemma calm_slow_on_prefix: "calm slow_on_prefix"
  by (simp add: calm_def slow_on_prefix_def)

lemma mean_elapsed_slow_on_prefix:
  "n > 0 \<Longrightarrow> mean_elapsed slow_on_prefix b n p = (if p = ''A'' \<or> p = ''AB'' then 1 / 2 else 1 / 10)"
  by (rule mean_elapsed_const) (simp_all add: slow_on_prefix_def)



lemmas scenario_eval =
  position_def scan_Cons Let_def scenario_def init_def calm_all_caught calm_slow_on_prefix
  mean_elapsed_slow_on_prefix tried_def accepted_def report_def print_def sort_desc_def

lemma scenario_position_1: "position scenario slow_on_prefix (init scenario) = Inr after_A"
  by (simp add: scenario_eval after_A_def del: scan.simps(2))

lemma scenario_position_2: "position scenario slow_on_prefix after_A = Inr after_AB"
  by (simp add: scenario_eval after_A_def after_AB_def del: scan.simps(2))

lemma scenario_position_3: "position scenario slow_on_prefix after_AB = Inr stalled_AB"
  by (simp add: scenario_eval after_AB_def stalled_AB_def del: scan.simps(2))

lemma scenario_unroll_2: "unroll scenario slow_on_prefix 2 (init scenario) = Inr (False, after_AB)"
  by (simp add: eval_nat_numeral scenario_position_1 scenario_position_2)
     (simp add: after_A_def after_AB_def)

lemma scenario_unroll_3: "unroll scenario slow_on_prefix 3 (init scenario) = Inr (True, stalled_AB)"
  by (simp add: eval_nat_numeral scenario_position_1 scenario_position_2 scenario_position_3)
     (simp add: after_A_def after_AB_def stalled_AB_def)







section \<open>The properties of the specification\<close>

subsection \<open>The scan of one position\<close>



subsection \<open>Runs against a deterministic oracle\<close>



subsection \<open>The range of a measurement\<close>




subsection \<open>Failing requests\<close>




subsection \<open>The mean over the trials\<close>



subsection \<open>The stall report\<close>



subsection \<open>The prefix at a stall\<close>

text \<open>
  C7.  When the scan of a position of a run finds no character, the known prefix after that
  position is exactly the one before it, the loop ends there, and the run ends with the final
  line reporting this unchanged prefix.
\<close>

theorem stall_keeps_known:
  assumes "unroll cfg env j s0 = Inr (False, s)"
    and "position cfg env s = Inr s'" and "\<not> found s'"
  shows "known s' = known s
         \<and> loop cfg env s0 = Some (Inr s')
         \<and> run_from cfg env s0 = Some (Inr (print (SecretDiscovered (known s)) s'))"
proof -
  from position_known [OF assms(2)] assms(3) have k: "known s' = known s" by simp
  from run_from_stall [OF assms] have r: "run_from cfg env s0
      = Some (Inr (print (SecretDiscovered (known s')) s'))" .
  from loop_stall [OF assms] have "loop cfg env s0 = Some (Inr s')" .
  with k r show ?thesis by simp
qed

theorem stall_keeps_known_witness:
  "unroll scenario slow_on_prefix 2 (init scenario) = Inr (False, after_AB)
   \<and> position scenario slow_on_prefix after_AB = Inr stalled_AB \<and> \<not> found stalled_AB
   \<and> known stalled_AB = ''AB'' \<and> known after_AB = ''AB''
   \<and> run scenario slow_on_prefix = Some (Inr (print (SecretDiscovered ''AB'') stalled_AB))"
proof -
  have f: "\<not> found stalled_AB" by (simp add: stalled_AB_def)
  from stall_keeps_known [OF scenario_unroll_2 scenario_position_3 f]
    scenario_unroll_2 scenario_position_3 f
  show ?thesis
    by (simp add: run_def after_AB_def)
qed

subsection \<open>The growth of the known prefix\<close>

text \<open>
  C8.  The known prefix starts as the seed.  At every point of a run (after any number \<open>k\<close> of
  positions) it is the seed followed by at most \<open>k\<close> characters of the charset; one position
  either appends exactly one character of the charset (a character was found) or leaves the
  prefix as it is (none was found); and so the prefix of the final state of a run is the seed
  followed by characters of the charset.
\<close>

theorem known_only_grows:
  "known (init cfg) = seed cfg
   \<and> (\<forall>k b s. unroll cfg env k (init cfg) = Inr (b, s) \<longrightarrow>
         (\<exists>suffix. known s = seed cfg @ suffix \<and> set suffix \<subseteq> set (charset cfg)
                    \<and> length suffix \<le> k))
   \<and> (\<forall>s s'. position cfg env s = Inr s' \<longrightarrow>
         (if found s' then \<exists>c \<in> set (charset cfg). known s' = known s @ [c]
          else known s' = known s))
   \<and> (\<forall>s. run cfg env = Some (Inr s) \<longrightarrow>
         (\<exists>suffix. known s = seed cfg @ suffix \<and> set suffix \<subseteq> set (charset cfg)))"
proof (intro conjI allI impI)
  show "known (init cfg) = seed cfg" by (simp add: init_def)
next
  fix k b s
  assume "unroll cfg env k (init cfg) = Inr (b, s)"
  from unroll_known [OF this]
  show "\<exists>suffix. known s = seed cfg @ suffix \<and> set suffix \<subseteq> set (charset cfg) \<and> length suffix \<le> k"
    by (simp add: init_def)
next
  fix s s'
  assume "position cfg env s = Inr s'"
  then show "if found s' then \<exists>c \<in> set (charset cfg). known s' = known s @ [c]
             else known s' = known s"
    by (rule position_known)
next
  fix s
  assume "run cfg env = Some (Inr s)"
  then have "run_from cfg env (init cfg) = Some (Inr s)" by (simp add: run_def)
  from run_from_cases [OF this] obtain r0 where r0: "loop cfg env (init cfg) = Some r0"
    "Inr s = (case r0 of Inl e \<Rightarrow> Inl e
                       | Inr s' \<Rightarrow> Inr (print (SecretDiscovered (known s')) s'))"
    by blast
  then obtain s1 where l: "loop cfg env (init cfg) = Some (Inr s1)"
    and s: "s = print (SecretDiscovered (known s1)) s1"
    by (cases r0) auto
  from loop_unroll [OF l] obtain k where "unroll cfg env k (init cfg) = Inr (True, s1)"
    by (auto simp: finished_def)
  from unroll_known [OF this] s
  show "\<exists>suffix. known s = seed cfg @ suffix \<and> set suffix \<subseteq> set (charset cfg)"
    by (auto simp: init_def print_def)
qed

theorem known_only_grows_witness:
  "unroll scenario slow_on_prefix 2 (init scenario) = Inr (False, after_AB)
   \<and> known after_AB = seed scenario @ ''AB'' \<and> set ''AB'' \<subseteq> set (charset scenario)
   \<and> position scenario slow_on_prefix after_A = Inr after_AB \<and> found after_AB
   \<and> known after_AB = known after_A @ ''B''
   \<and> position scenario slow_on_prefix after_AB = Inr stalled_AB \<and> \<not> found stalled_AB
   \<and> known stalled_AB = known after_AB
   \<and> run scenario slow_on_prefix = Some (Inr (print (SecretDiscovered ''AB'') stalled_AB))
   \<and> (\<exists>suffix. known (print (SecretDiscovered ''AB'') stalled_AB) = seed scenario @ suffix
         \<and> set suffix \<subseteq> set (charset scenario))"
proof -
  have r: "run scenario slow_on_prefix = Some (Inr (print (SecretDiscovered ''AB'') stalled_AB))"
    using scenario_unroll_3
    by (simp add: run_def run_from_def unroll_loop [of _ _ 3 _ "Inr stalled_AB"] finished_def)
       (simp add: stalled_AB_def)
  have "\<exists>suffix. known (print (SecretDiscovered ''AB'') stalled_AB) = seed scenario @ suffix
         \<and> set suffix \<subseteq> set (charset scenario)"
    using known_only_grows [of scenario slow_on_prefix] r by blast
  with r scenario_unroll_2 scenario_position_2 scenario_position_3 show ?thesis
    by (simp add: after_A_def after_AB_def stalled_AB_def scenario_def)
qed

subsection \<open>The console output\<close>




subsection \<open>The candidates list\<close>



end
